theory Spec2Isabelle
  imports Main "HOL-Library.AList" "HOL-Library.Multiset"
begin

section \<open>Data model of pkg/flowkit/resolvers/deployment.go\<close>

text \<open>
  \<^verbatim>\<open>flowkit.Contract\<close> is supplied by the caller. The resolver reads its \<^verbatim>\<open>Name\<close> (for
  messages) and its \<^verbatim>\<open>Location\<close> (to load the source and as the import target); its other
  fields play no part in ordering.
\<close>

record Contract =
  Name :: string
  Location :: string

text \<open>
  The location of an import declaration (\<^verbatim>\<open>common.Location\<close>). Only
  \<^verbatim>\<open>common.StringLocation\<close> passes the type assertion in \<^verbatim>\<open>imports()\<close>; every other
  implementation is \<open>OtherLocation\<close>. A parsed program is read only through
  \<^verbatim>\<open>ImportDeclarations()\<close>, so it is the list of the locations it declares, in source order.
\<close>

datatype common_Location = StringLocation string | OtherLocation

type_synonym ast_Program = "common_Location list"

text \<open>
  A \<^verbatim>\<open>*deployContract\<close> is the position of the object in \<^verbatim>\<open>Deployment.contracts\<close>: \<^verbatim>\<open>add\<close>
  allocates one object per registered contract and appends its pointer, so the slice is the store
  and a pointer is an index into it.
\<close>

type_synonym ref = nat

text \<open>
  \<^verbatim>\<open>dependencies map[string]*deployContract\<close>. A Go map value is either \<^verbatim>\<open>nil\<close> (\<open>None\<close>:
  reads and \<^verbatim>\<open>range\<close> see an empty map, a write panics) or an allocated map (\<open>Some\<close> of an
  association list; the order of the list stands for the order in which \<^verbatim>\<open>range\<close> happens to
  enumerate the entries).
\<close>

record deployContract =
  index :: int
  contract :: Contract
  program :: ast_Program
  dependencies :: "(string \<times> ref) list option"

record Deployment =
  contracts :: "deployContract list"
  contractsByLocation :: "string \<rightharpoonup> ref"

text \<open>
  Every way an operation can end without its result: an error of the loader or the parser
  (external), the \<^verbatim>\<open>fmt.Errorf\<close> of \<^verbatim>\<open>buildDependencies\<close> with its two arguments, the
  \<^verbatim>\<open>CyclicImportError\<close> with its \<^verbatim>\<open>Cycles\<close>, and the two run-time panics the code can reach.
\<close>

datatype error =
    ExternalError string
  | ImportNotFound string string
  | CyclicImportError "ref list list"
  | PanicNilMap
  | PanicIndexOutOfRange

section \<open>Registration\<close>

definition newContract ::
  "('code \<Rightarrow> error + ast_Program) \<Rightarrow> Contract \<Rightarrow> int \<Rightarrow> 'code \<Rightarrow> error + deployContract" where
  "newContract ParseProgram c idx code =
     (case ParseProgram code of
        Inl err \<Rightarrow> Inl err
      | Inr prog \<Rightarrow> Inr \<lparr>index = idx, contract = c, program = prog, dependencies = None\<rparr>)"

text \<open>\<^verbatim>\<open>ID()\<close> makes a contract a node of the graph: its identifier is its registration index.\<close>

definition ID :: "deployContract \<Rightarrow> int" where
  "ID d = index d"

fun stringLocations :: "ast_Program \<Rightarrow> string list" where
  "stringLocations [] = []"
| "stringLocations (StringLocation s # rest) = s # stringLocations rest"
| "stringLocations (OtherLocation # rest) = stringLocations rest"

definition imports' :: "deployContract \<Rightarrow> string list" where
  "imports' d = stringLocations (program d)"

definition addDependency :: "deployContract \<Rightarrow> string \<Rightarrow> ref \<Rightarrow> error + deployContract" where
  "addDependency d location dep =
     (case dependencies d of
        None \<Rightarrow> Inl PanicNilMap
      | Some m \<Rightarrow> Inr (d\<lparr>dependencies := Some (AList.update location dep m)\<rparr>))"

definition add ::
  "(string \<Rightarrow> error + 'code) \<Rightarrow> ('code \<Rightarrow> error + ast_Program) \<Rightarrow> Deployment \<Rightarrow> Contract
     \<Rightarrow> error + Deployment" where
  "add Load ParseProgram d c =
     (case Load (Location c) of
        Inl err \<Rightarrow> Inl err
      | Inr code \<Rightarrow>
          (case newContract ParseProgram c (int (length (contracts d))) code of
             Inl err \<Rightarrow> Inl err
           | Inr dc \<Rightarrow>
               Inr (d\<lparr>contracts := contracts d @ [dc],
                      contractsByLocation :=
                        (contractsByLocation d)(Location (contract dc) \<mapsto> length (contracts d))\<rparr>)))"

fun addAll ::
  "(string \<Rightarrow> error + 'code) \<Rightarrow> ('code \<Rightarrow> error + ast_Program) \<Rightarrow> Deployment \<Rightarrow> Contract list
     \<Rightarrow> error + Deployment" where
  "addAll Load ParseProgram d [] = Inr d"
| "addAll Load ParseProgram d (c # rest) =
     (case add Load ParseProgram d c of
        Inl err \<Rightarrow> Inl err
      | Inr d' \<Rightarrow> addAll Load ParseProgram d' rest)"

definition NewDeployment ::
  "Contract list \<Rightarrow> (string \<Rightarrow> error + 'code) \<Rightarrow> ('code \<Rightarrow> error + ast_Program)
     \<Rightarrow> error + Deployment" where
  "NewDeployment cs Load ParseProgram =
     addAll Load ParseProgram \<lparr>contracts = [], contractsByLocation = Map.empty\<rparr> cs"

section \<open>Building the dependencies\<close>

text \<open>
  The inner loop of \<^verbatim>\<open>buildDependencies\<close>, over the imports of one contract. It reads the
  registry's location index and writes only the contract it runs on, so it passes that contract.
  It stops at the first import that is not registered (the error) and at a write to a
  \<^verbatim>\<open>nil\<close> map (the panic); what it wrote before stays written.
\<close>

fun resolveImports ::
  "(string \<rightharpoonup> ref) \<Rightarrow> deployContract \<Rightarrow> string list \<Rightarrow> error option \<times> deployContract" where
  "resolveImports byLocation c [] = (None, c)"
| "resolveImports byLocation c (location # rest) =
     (case byLocation location of
        None \<Rightarrow> (Some (ImportNotFound (Name (contract c)) location), c)
      | Some importContract \<Rightarrow>
          (case addDependency c location importContract of
             Inl panic \<Rightarrow> (Some panic, c)
           | Inr c' \<Rightarrow> resolveImports byLocation c' rest))"

text \<open>The outer loop, over the registered contracts in registration order.\<close>

fun buildLoop ::
  "(string \<rightharpoonup> ref) \<Rightarrow> deployContract list \<Rightarrow> error option \<times> deployContract list" where
  "buildLoop byLocation [] = (None, [])"
| "buildLoop byLocation (c # cs) =
     (case resolveImports byLocation c (imports' c) of
        (Some err, c') \<Rightarrow> (Some err, c' # cs)
      | (None, c') \<Rightarrow>
          (case buildLoop byLocation cs of (err, cs') \<Rightarrow> (err, c' # cs')))"

definition buildDependencies :: "Deployment \<Rightarrow> error option \<times> Deployment" where
  "buildDependencies d =
     (case buildLoop (contractsByLocation d) (contracts d) of
        (err, cs') \<Rightarrow> (err, d\<lparr>contracts := cs'\<rparr>))"

section \<open>The graph and the sort\<close>

text \<open>
  Modelled from the spec: the directed graph of \<^verbatim>\<open>gonum.org/v1/gonum/graph/simple\<close>
  (\<^verbatim>\<open>NewDirectedGraph\<close>, \<^verbatim>\<open>AddNode\<close>, \<^verbatim>\<open>NewEdge\<close>, \<^verbatim>\<open>SetEdge\<close>), whose source is not part of the
  repository. The spec's DependencyGraph: its nodes are the registered contracts, its edges one
  directed edge per resolved dependency, running from the dependency to the dependent; a self
  edge is an edge like any other.
\<close>

record DirectedGraph =
  nodes :: "ref list"
  edges :: "(ref \<times> ref) set"

definition NewDirectedGraph :: DirectedGraph where
  "NewDirectedGraph = \<lparr>nodes = [], edges = {}\<rparr>"

definition AddNode :: "DirectedGraph \<Rightarrow> ref \<Rightarrow> DirectedGraph" where
  "AddNode g n = g\<lparr>nodes := nodes g @ [n]\<rparr>"

definition SetEdge :: "DirectedGraph \<Rightarrow> ref \<times> ref \<Rightarrow> DirectedGraph" where
  "SetEdge g e = g\<lparr>edges := insert e (edges g)\<rparr>"

text \<open>
  \<^verbatim>\<open>topo.SortStabilized\<close> is a function of the same library. \<^verbatim>\<open>sortByDeploymentOrder\<close> takes
  it as a parameter: given what \<^verbatim>\<open>ID()\<close> returns for each contract (by position) and the graph, it
  returns the cyclic components (\<^verbatim>\<open>topo.Unorderable\<close>) or the sorted nodes.
\<close>

type_synonym Sorter = "int list \<Rightarrow> DirectedGraph \<Rightarrow> ref list list + ref list"

text \<open>
  \<^verbatim>\<open>for _, dep := range c.dependencies\<close>: the values of the map; none for a \<^verbatim>\<open>nil\<close> map.
\<close>

definition rangeDependencies :: "deployContract \<Rightarrow> ref list" where
  "rangeDependencies c = (case dependencies c of None \<Rightarrow> [] | Some m \<Rightarrow> map snd m)"

definition nodesToContracts :: "ref list \<Rightarrow> ref list" where
  "nodesToContracts ns = map (\<lambda>s. s) ns"

definition nodeSetsToContractSets :: "ref list list \<Rightarrow> ref list list" where
  "nodeSetsToContractSets nss = map nodesToContracts nss"

definition dependencyGraph :: "deployContract list \<Rightarrow> DirectedGraph" where
  "dependencyGraph cs =
     foldl (\<lambda>g c. foldl (\<lambda>g dep. SetEdge g (dep, c)) g (rangeDependencies (cs ! c)))
       (foldl AddNode NewDirectedGraph [0..<length cs])
       [0..<length cs]"

definition sortByDeploymentOrder :: "Sorter \<Rightarrow> deployContract list \<Rightarrow> error + ref list" where
  "sortByDeploymentOrder sorter cs =
     (case sorter (map ID cs) (dependencyGraph cs) of
        Inl cycles \<Rightarrow> Inl (CyclicImportError (nodeSetsToContractSets cycles))
      | Inr ordered \<Rightarrow> Inr (nodesToContracts ordered))"

definition contractNames :: "deployContract list \<Rightarrow> ref list list \<Rightarrow> string list list" where
  "contractNames cs cycles = map (map (\<lambda>r. Name (contract (cs ! r)))) cycles"

text \<open>
  The last loop of \<^verbatim>\<open>Sort\<close>: \<^verbatim>\<open>contracts[i] = s.Contract\<close> into a slice made with the length of
  \<^verbatim>\<open>d.contracts\<close>, all \<^verbatim>\<open>nil\<close> (\<open>None\<close>) at first. A write past its end panics.
\<close>

fun copyContracts ::
  "deployContract list \<Rightarrow> Contract option list \<Rightarrow> nat \<Rightarrow> ref list
     \<Rightarrow> error + Contract option list" where
  "copyContracts cs out i [] = Inr out"
| "copyContracts cs out i (s # rest) =
     (if i < length out
      then copyContracts cs (out[i := Some (contract (cs ! s))]) (Suc i) rest
      else Inl PanicIndexOutOfRange)"

text \<open>
  \<^verbatim>\<open>Sort\<close> returns its result together with the registry as it leaves it: the contracts are
  reached through pointers, so what \<^verbatim>\<open>buildDependencies\<close> wrote stays written whatever the
  result is.
\<close>

definition Sort :: "Sorter \<Rightarrow> Deployment \<Rightarrow> (error + Contract option list) \<times> Deployment" where
  "Sort sorter d =
     (case buildDependencies d of
        (Some err, d') \<Rightarrow> (Inl err, d')
      | (None, d') \<Rightarrow>
          (case sortByDeploymentOrder sorter (contracts d') of
             Inl err \<Rightarrow> (Inl err, d')
           | Inr ordered \<Rightarrow>
               (copyContracts (contracts d') (replicate (length (contracts d')) None) 0 ordered,
                d')))"

subsection \<open>The stabilized topological sort\<close>

text \<open>
  Modelled from the spec: \<^verbatim>\<open>topo.SortStabilized\<close> of \<^verbatim>\<open>gonum.org/v1/gonum/graph/topo\<close>, whose
  source is not part of the repository. The spec's TopologicalSorter: a standard topological
  ordering (Kahn's algorithm) in which, among the nodes that no remaining constraint holds back,
  the one with the least \<^verbatim>\<open>Index\<close> comes next; when the graph has a cycle, every strongly
  connected component of more than one node, and every node with a self edge, is reported.
  Every node of the graph is a registered contract, so \<open>ids ! r\<close> is read in range. The main
  loop puts out one node per round, so it makes at most as many rounds as the graph has nodes;
  when it stops, no node is ready.
\<close>

definition ready :: "DirectedGraph \<Rightarrow> ref list \<Rightarrow> ref \<Rightarrow> bool" where
  "ready g out v \<longleftrightarrow> v \<notin> set out \<and> (\<forall>(u, w) \<in> edges g. w = v \<longrightarrow> u \<in> set out)"

fun leastByID :: "(ref \<Rightarrow> int) \<Rightarrow> ref list \<Rightarrow> ref option" where
  "leastByID ident [] = None"
| "leastByID ident (v # vs) =
     (case leastByID ident vs of
        None \<Rightarrow> Some v
      | Some w \<Rightarrow> if ident v \<le> ident w then Some v else Some w)"

fun kahn :: "(ref \<Rightarrow> int) \<Rightarrow> DirectedGraph \<Rightarrow> nat \<Rightarrow> ref list \<Rightarrow> ref list" where
  "kahn ident g 0 out = out"
| "kahn ident g (Suc k) out =
     (case leastByID ident (filter (ready g out) (nodes g)) of
        None \<Rightarrow> out
      | Some v \<Rightarrow> kahn ident g k (out @ [v]))"

definition successors :: "DirectedGraph \<Rightarrow> ref \<Rightarrow> ref list" where
  "successors g u = filter (\<lambda>w. (u, w) \<in> edges g) (nodes g)"

fun reachIter :: "DirectedGraph \<Rightarrow> nat \<Rightarrow> ref list \<Rightarrow> ref list" where
  "reachIter g 0 vs = vs"
| "reachIter g (Suc k) vs = reachIter g k (remdups (vs @ concat (map (successors g) vs)))"

definition reachable :: "DirectedGraph \<Rightarrow> ref \<Rightarrow> ref \<Rightarrow> bool" where
  "reachable g u v \<longleftrightarrow> v \<in> set (reachIter g (length (nodes g)) (successors g u))"

definition component :: "DirectedGraph \<Rightarrow> ref \<Rightarrow> ref list" where
  "component g u = filter (\<lambda>v. v = u \<or> (reachable g u v \<and> reachable g v u)) (nodes g)"

definition cyclicComponents :: "(ref \<Rightarrow> int) \<Rightarrow> DirectedGraph \<Rightarrow> ref list list" where
  "cyclicComponents ident g =
     remdups (map (component g) (filter (\<lambda>u. reachable g u u) (sort_key ident (nodes g))))"

definition SortStabilized :: Sorter where
  "SortStabilized ids g =
     (let ordered = kahn (\<lambda>r. ids ! r) g (length (nodes g)) []
      in if length ordered = length (nodes g) then Inr ordered
         else Inl (cyclicComponents (\<lambda>r. ids ! r) g))"

section \<open>Observations and example registries\<close>


definition contractA :: Contract where
  "contractA = \<lparr>Name = ''A'', Location = ''a.cdc''\<rparr>"

definition contractB :: Contract where
  "contractB = \<lparr>Name = ''B'', Location = ''b.cdc''\<rparr>"

definition contractC :: Contract where
  "contractC = \<lparr>Name = ''C'', Location = ''c.cdc''\<rparr>"

definition contractD :: Contract where
  "contractD = \<lparr>Name = ''D'', Location = ''d.cdc''\<rparr>"

text \<open>
  An in-memory loader whose ``code'' is already the list of import declarations, and the parser
  that accepts it.
\<close>

definition memoryLoader :: "(string \<times> ast_Program) list \<Rightarrow> string \<Rightarrow> error + ast_Program" where
  "memoryLoader files location =
     (case map_of files location of
        None \<Rightarrow> Inl (ExternalError location)
      | Some code \<Rightarrow> Inr code)"

definition parseLoaded :: "ast_Program \<Rightarrow> error + ast_Program" where
  "parseLoaded code = Inr code"

text \<open>
  A contract as \<^verbatim>\<open>newContract\<close> leaves it (\<open>registered\<close>: the map is \<^verbatim>\<open>nil\<close>), and a contract
  whose map has been allocated (\<open>allocated\<close>).
\<close>

definition registered :: "int \<Rightarrow> Contract \<Rightarrow> ast_Program \<Rightarrow> deployContract" where
  "registered i c prog = \<lparr>index = i, contract = c, program = prog, dependencies = None\<rparr>"

definition allocated ::
  "int \<Rightarrow> Contract \<Rightarrow> ast_Program \<Rightarrow> (string \<times> ref) list \<Rightarrow> deployContract" where
  "allocated i c prog m = \<lparr>index = i, contract = c, program = prog, dependencies = Some m\<rparr>"

text \<open>Linear chain: A has no imports, B imports A.\<close>

definition chainFiles :: "(string \<times> ast_Program) list" where
  "chainFiles = [(''a.cdc'', []), (''b.cdc'', [StringLocation ''a.cdc''])]"

definition chainRegistry :: Deployment where
  "chainRegistry =
     \<lparr>contracts = [registered 0 contractA [], registered 1 contractB [StringLocation ''a.cdc'']],
      contractsByLocation = [''a.cdc'' \<mapsto> 0, ''b.cdc'' \<mapsto> 1]\<rparr>"



text \<open>Diamond: A, B imports A, C imports A, D imports B and C.\<close>

definition diamondFiles :: "(string \<times> ast_Program) list" where
  "diamondFiles =
     [(''a.cdc'', []),
      (''b.cdc'', [StringLocation ''a.cdc'']),
      (''c.cdc'', [StringLocation ''a.cdc'']),
      (''d.cdc'', [StringLocation ''b.cdc'', StringLocation ''c.cdc''])]"

definition diamondRegistry :: Deployment where
  "diamondRegistry =
     \<lparr>contracts =
        [registered 0 contractA [],
         registered 1 contractB [StringLocation ''a.cdc''],
         registered 2 contractC [StringLocation ''a.cdc''],
         registered 3 contractD [StringLocation ''b.cdc'', StringLocation ''c.cdc'']],
      contractsByLocation =
        [''a.cdc'' \<mapsto> 0, ''b.cdc'' \<mapsto> 1, ''c.cdc'' \<mapsto> 2, ''d.cdc'' \<mapsto> 3]\<rparr>"

text \<open>Self import: A imports its own location.\<close>

definition selfFiles :: "(string \<times> ast_Program) list" where
  "selfFiles = [(''a.cdc'', [StringLocation ''a.cdc''])]"

definition selfRegistry :: Deployment where
  "selfRegistry =
     \<lparr>contracts = [registered 0 contractA [StringLocation ''a.cdc'']],
      contractsByLocation = [''a.cdc'' \<mapsto> 0]\<rparr>"

text \<open>Missing import: B imports A and then a location that is not registered.\<close>

definition missingFiles :: "(string \<times> ast_Program) list" where
  "missingFiles =
     [(''a.cdc'', []), (''b.cdc'', [StringLocation ''a.cdc'', StringLocation ''x.cdc''])]"

definition missingRegistry :: Deployment where
  "missingRegistry =
     \<lparr>contracts =
        [registered 0 contractA [],
         registered 1 contractB [StringLocation ''a.cdc'', StringLocation ''x.cdc'']],
      contractsByLocation = [''a.cdc'' \<mapsto> 0, ''b.cdc'' \<mapsto> 1]\<rparr>"

text \<open>Mutual cycle: A imports B, B imports A.\<close>

definition mutualFiles :: "(string \<times> ast_Program) list" where
  "mutualFiles =
     [(''a.cdc'', [StringLocation ''b.cdc'']), (''b.cdc'', [StringLocation ''a.cdc''])]"

definition mutualRegistry :: Deployment where
  "mutualRegistry =
     \<lparr>contracts =
        [registered 0 contractA [StringLocation ''b.cdc''],
         registered 1 contractB [StringLocation ''a.cdc'']],
      contractsByLocation = [''a.cdc'' \<mapsto> 0, ''b.cdc'' \<mapsto> 1]\<rparr>"



text \<open>Reversed chain: B, registered first, imports A, registered second.\<close>

definition reversedAllocated :: Deployment where
  "reversedAllocated =
     \<lparr>contracts = [allocated 0 contractB [StringLocation ''a.cdc''] [], allocated 1 contractA [] []],
      contractsByLocation = [''b.cdc'' \<mapsto> 0, ''a.cdc'' \<mapsto> 1]\<rparr>"

definition reversedBuilt :: Deployment where
  "reversedBuilt =
     \<lparr>contracts =
        [allocated 0 contractB [StringLocation ''a.cdc''] [(''a.cdc'', 1)],
         allocated 1 contractA [] []],
      contractsByLocation = [''b.cdc'' \<mapsto> 0, ''a.cdc'' \<mapsto> 1]\<rparr>"

text \<open>
  The diamond and the cycles with their maps allocated, and the diamond after
  \<^verbatim>\<open>buildDependencies\<close> with the entries of D's map enumerated in either order.
\<close>

definition diamondAllocated :: Deployment where
  "diamondAllocated =
     \<lparr>contracts =
        [allocated 0 contractA [] [],
         allocated 1 contractB [StringLocation ''a.cdc''] [],
         allocated 2 contractC [StringLocation ''a.cdc''] [],
         allocated 3 contractD [StringLocation ''b.cdc'', StringLocation ''c.cdc''] []],
      contractsByLocation =
        [''a.cdc'' \<mapsto> 0, ''b.cdc'' \<mapsto> 1, ''c.cdc'' \<mapsto> 2, ''d.cdc'' \<mapsto> 3]\<rparr>"



definition selfAllocated :: Deployment where
  "selfAllocated =
     \<lparr>contracts = [allocated 0 contractA [StringLocation ''a.cdc''] []],
      contractsByLocation = [''a.cdc'' \<mapsto> 0]\<rparr>"

definition missingAllocated :: Deployment where
  "missingAllocated =
     \<lparr>contracts =
        [allocated 0 contractA [] [],
         allocated 1 contractB [StringLocation ''a.cdc'', StringLocation ''x.cdc''] []],
      contractsByLocation = [''a.cdc'' \<mapsto> 0, ''b.cdc'' \<mapsto> 1]\<rparr>"

definition mutualAllocated :: Deployment where
  "mutualAllocated =
     \<lparr>contracts =
        [allocated 0 contractA [StringLocation ''b.cdc''] [],
         allocated 1 contractB [StringLocation ''a.cdc''] []],
      contractsByLocation = [''a.cdc'' \<mapsto> 0, ''b.cdc'' \<mapsto> 1]\<rparr>"

section \<open>Relations and invariants used in the proofs\<close>




text \<open>
  What the main loop of Kahn's algorithm maintains: no node is put out twice, only nodes of the
  graph are put out, and each node was ready when it was put out.
\<close>

definition kahnInv :: "DirectedGraph \<Rightarrow> ref list \<Rightarrow> bool" where
  "kahnInv g out \<longleftrightarrow>
     distinct out \<and> set out \<subseteq> set (nodes g) \<and> (\<forall>i < length out. ready g (take i out) (out ! i))"

section \<open>Building the dependencies: frame, idempotence, sizes\<close>

lemma resolveImports_frame:
  "resolveImports bl c locs = (e, c') \<Longrightarrow>
     index c' = index c \<and> contract c' = contract c \<and> program c' = program c \<and>
     (dependencies c' = None \<longleftrightarrow> dependencies c = None)"
proof (induction locs arbitrary: c)
  case Nil
  then show ?case by simp
next
  case (Cons location rest)
  show ?case
  proof (cases "bl location")
    case None
    with Cons.prems show ?thesis by simp
  next
    case (Some importContract)
    show ?thesis
    proof (cases "dependencies c")
      case None
      with Some Cons.prems show ?thesis by (simp add: addDependency_def)
    next
      case (Some m)
      let ?c1 = "c\<lparr>dependencies := Some (AList.update location importContract m)\<rparr>"
      from Some \<open>bl location = Some importContract\<close> Cons.prems
      have "resolveImports bl ?c1 rest = (e, c')" by (simp add: addDependency_def)
      from Cons.IH [OF this] Some show ?thesis by simp
    qed
  qed
qed

lemma resolveImports_nil_map:
  "dependencies c = None \<Longrightarrow> resolveImports bl c locs = (e, c') \<Longrightarrow>
     c' = c \<and> (e = None \<longrightarrow> locs = [])"
  by (cases locs) (auto simp: addDependency_def split: option.splits)




lemma buildLoop_frame:
  "buildLoop bl cs = (e, cs') \<Longrightarrow>
     map index cs' = map index cs \<and> map contract cs' = map contract cs \<and>
     map program cs' = map program cs \<and>
     map (\<lambda>c. dependencies c = None) cs' = map (\<lambda>c. dependencies c = None) cs"
proof (induction cs arbitrary: e cs')
  case Nil
  then show ?case by simp
next
  case (Cons c cs)
  obtain e1 c1 where r: "resolveImports bl c (imports' c) = (e1, c1)"
    by (cases "resolveImports bl c (imports' c)")
  note f = resolveImports_frame [OF r]
  show ?case
  proof (cases e1)
    case (Some err)
    with r Cons.prems have "cs' = c1 # cs" by auto
    with f show ?thesis by simp
  next
    case None
    obtain e2 cs2 where l: "buildLoop bl cs = (e2, cs2)" by (cases "buildLoop bl cs")
    with r None Cons.prems have "cs' = c1 # cs2" by auto
    with f Cons.IH [OF l] show ?thesis by simp
  qed
qed






lemma buildLoop_nil_maps:
  "\<forall>c \<in> set cs. dependencies c = None \<Longrightarrow> buildLoop bl cs = (e, cs') \<Longrightarrow>
     cs' = cs \<and>
     (case e of
        None \<Rightarrow> \<forall>c \<in> set cs. imports' c = []
      | Some err \<Rightarrow> err = PanicNilMap \<or> (\<exists>n p. err = ImportNotFound n p))"
proof (induction cs arbitrary: e cs')
  case Nil
  then show ?case by simp
next
  case (Cons c cs)
  obtain e1 c1 where r: "resolveImports bl c (imports' c) = (e1, c1)"
    by (cases "resolveImports bl c (imports' c)")
  from Cons.prems(1) have n: "dependencies c = None" by simp
  from resolveImports_nil_map [OF n r] have c1: "c1 = c" and emp: "e1 = None \<longrightarrow> imports' c = []"
    by simp_all
  show ?case
  proof (cases e1)
    case (Some err)
    have "err = PanicNilMap \<or> (\<exists>n p. err = ImportNotFound n p)"
      using r n Some by (cases "imports' c") (auto simp: addDependency_def split: option.splits)
    with r Some c1 Cons.prems(2) show ?thesis by auto
  next
    case None
    obtain e2 cs2 where l: "buildLoop bl cs = (e2, cs2)" by (cases "buildLoop bl cs")
    from Cons.prems(1) have "\<forall>x \<in> set cs. dependencies x = None" by simp
    from Cons.IH [OF this l] r None c1 emp l Cons.prems(2) show ?thesis
      by (auto split: option.splits)
  qed
qed

section \<open>Registration leaves every dependency map nil\<close>

lemma add_dependencies_nil:
  "add Load ParseProgram d c = Inr d' \<Longrightarrow>
   \<forall>x \<in> set (contracts d). dependencies x = None \<Longrightarrow>
   \<forall>x \<in> set (contracts d'). dependencies x = None"
  by (auto simp: add_def newContract_def split: sum.splits)

lemma addAll_dependencies_nil:
  "addAll Load ParseProgram d cs = Inr d' \<Longrightarrow>
   \<forall>x \<in> set (contracts d). dependencies x = None \<Longrightarrow>
   \<forall>x \<in> set (contracts d'). dependencies x = None"
proof (induction cs arbitrary: d)
  case Nil
  then show ?case by simp
next
  case (Cons c cs)
  from Cons.prems(1) obtain d1 where a: "add Load ParseProgram d c = Inr d1"
    and r: "addAll Load ParseProgram d1 cs = Inr d'"
    by (auto split: sum.splits)
  from Cons.IH [OF r add_dependencies_nil [OF a Cons.prems(2)]] show ?case .
qed

lemma NewDeployment_dependencies_nil:
  "NewDeployment cs Load ParseProgram = Inr d \<Longrightarrow> \<forall>c \<in> set (contracts d). dependencies c = None"
proof -
  assume "NewDeployment cs Load ParseProgram = Inr d"
  then have "addAll Load ParseProgram \<lparr>contracts = [], contractsByLocation = Map.empty\<rparr> cs = Inr d"
    by (simp add: NewDeployment_def)
  from addAll_dependencies_nil [OF this] show ?thesis by simp
qed

lemma add_registers:
  "add Load ParseProgram d c = Inr d' \<Longrightarrow>
     map contract (contracts d') = map contract (contracts d) @ [c] \<and>
     map index (contracts d') = map index (contracts d) @ [int (length (contracts d))]"
  by (auto simp: add_def newContract_def split: sum.splits)

lemma addAll_registers:
  "addAll Load ParseProgram d cs = Inr d' \<Longrightarrow>
     map contract (contracts d') = map contract (contracts d) @ cs \<and>
     map index (contracts d')
       = map index (contracts d) @ map int [length (contracts d)..<length (contracts d) + length cs]"
proof (induction cs arbitrary: d)
  case Nil
  then show ?case by simp
next
  case (Cons c cs)
  from Cons.prems obtain d1 where a: "add Load ParseProgram d c = Inr d1"
    and r: "addAll Load ParseProgram d1 cs = Inr d'"
    by (auto split: sum.splits)
  from add_registers [OF a] have l: "length (contracts d1) = Suc (length (contracts d))"
    by (metis length_map length_append_singleton)
  have u: "[length (contracts d)..<Suc (length (contracts d) + length cs)]
             = length (contracts d) # [Suc (length (contracts d))..<Suc (length (contracts d) + length cs)]"
    by (rule upt_conv_Cons) simp
  from Cons.IH [OF r] add_registers [OF a] l show ?case
    by (simp add: u del: upt_Suc)
qed

section \<open>The graph, the sort and the copy loop\<close>

lemma foldl_AddNode:
  "nodes (foldl AddNode g ns) = nodes g @ ns \<and> edges (foldl AddNode g ns) = edges g"
  by (induction ns arbitrary: g) (simp_all add: AddNode_def)

lemma foldl_SetEdge:
  "nodes (foldl (\<lambda>g dep. SetEdge g (dep, c)) g deps) = nodes g \<and>
   edges (foldl (\<lambda>g dep. SetEdge g (dep, c)) g deps) = edges g \<union> (\<lambda>dep. (dep, c)) ` set deps"
  by (induction deps arbitrary: g) (auto simp: SetEdge_def)

lemma foldl_contracts_edges:
  "nodes (foldl (\<lambda>g c. foldl (\<lambda>g dep. SetEdge g (dep, c)) g (f c)) g rs) = nodes g \<and>
   edges (foldl (\<lambda>g c. foldl (\<lambda>g dep. SetEdge g (dep, c)) g (f c)) g rs)
     = edges g \<union> {(dep, c). c \<in> set rs \<and> dep \<in> set (f c)}"
proof (induction rs arbitrary: g)
  case Nil
  then show ?case by simp
next
  case (Cons r rs)
  let ?g1 = "foldl (\<lambda>g dep. SetEdge g (dep, r)) g (f r)"
  have n: "nodes ?g1 = nodes g" and e: "edges ?g1 = edges g \<union> (\<lambda>dep. (dep, r)) ` set (f r)"
    using foldl_SetEdge [of r g "f r"] by simp_all
  from Cons.IH [of ?g1] n e show ?case by auto
qed

lemma nodes_dependencyGraph: "nodes (dependencyGraph cs) = [0..<length cs]"
  unfolding dependencyGraph_def
  using foldl_contracts_edges [of "\<lambda>c. rangeDependencies (cs ! c)"]
  by (simp add: foldl_AddNode NewDirectedGraph_def)


lemma leastByID_member: "leastByID ident vs = Some v \<Longrightarrow> v \<in> set vs"
  by (induction vs arbitrary: v) (auto split: option.splits if_splits)

lemma leastByID_None: "leastByID ident vs = None \<longleftrightarrow> vs = []"
  by (cases vs) (auto split: option.splits)

lemma leastByID_least:
  "leastByID ident vs = Some v \<Longrightarrow> w \<in> set vs \<Longrightarrow> ident v \<le> ident w"
proof (induction vs arbitrary: v)
  case Nil
  then show ?case by simp
next
  case (Cons a vs)
  show ?case
  proof (cases "leastByID ident vs")
    case None
    then have "vs = []" by (simp add: leastByID_None)
    with Cons.prems None show ?thesis by simp
  next
    case (Some u)
    note tl = Cons.IH [OF Some]
    show ?thesis
    proof (cases "ident a \<le> ident u")
      case True
      with Some Cons.prems(1) have "v = a" by simp
      with Cons.prems(2) True tl show ?thesis by force
    next
      case False
      with Some Cons.prems(1) have "v = u" by simp
      with Cons.prems(2) False tl show ?thesis by force
    qed
  qed
qed

lemma kahnInv_step:
  assumes "kahnInv g out" and "ready g out v" and "v \<in> set (nodes g)"
  shows "kahnInv g (out @ [v])"
proof -
  have fresh: "v \<notin> set out" using assms(2) by (simp add: ready_def)
  have "ready g (take i (out @ [v])) ((out @ [v]) ! i)" if "i < length (out @ [v])" for i
  proof (cases "i < length out")
    case True
    with assms(1) show ?thesis by (simp add: kahnInv_def nth_append)
  next
    case False
    with that have "i = length out" by simp
    with assms(2) show ?thesis by simp
  qed
  with assms(1,3) fresh show ?thesis by (simp add: kahnInv_def)
qed

lemma kahn_invariant: "kahnInv g out \<Longrightarrow> kahnInv g (kahn ident g k out)"
proof (induction k arbitrary: out)
  case 0
  then show ?case by simp
next
  case (Suc k)
  show ?case
  proof (cases "leastByID ident (filter (ready g out) (nodes g))")
    case None
    with Suc.prems show ?thesis by simp
  next
    case (Some v)
    from leastByID_member [OF Some] have "ready g out v" "v \<in> set (nodes g)" by auto
    from Suc.IH [OF kahnInv_step [OF Suc.prems this]] Some show ?thesis by simp
  qed
qed


lemma kahn_least:
  "(\<forall>j<length out. \<forall>w\<in>set (nodes g). ready g (take j out) w \<longrightarrow> ident (out ! j) \<le> ident w)
   \<Longrightarrow> j < length (kahn ident g k out) \<Longrightarrow> w \<in> set (nodes g) \<Longrightarrow>
       ready g (take j (kahn ident g k out)) w \<Longrightarrow> ident (kahn ident g k out ! j) \<le> ident w"
proof (induction k arbitrary: out)
  case 0
  then show ?case by simp
next
  case (Suc k)
  show ?case
  proof (cases "leastByID ident (filter (ready g out) (nodes g))")
    case None
    with Suc.prems show ?thesis by simp
  next
    case (Some v)
    have "\<forall>j<length (out @ [v]). \<forall>w\<in>set (nodes g).
            ready g (take j (out @ [v])) w \<longrightarrow> ident ((out @ [v]) ! j) \<le> ident w"
    proof (intro allI impI ballI)
      fix i x
      assume i: "i < length (out @ [v])" and x: "x \<in> set (nodes g)"
        and r: "ready g (take i (out @ [v])) x"
      show "ident ((out @ [v]) ! i) \<le> ident x"
      proof (cases "i < length out")
        case True
        with Suc.prems(1) x r show ?thesis by (simp add: nth_append)
      next
        case False
        with i have "i = length out" by simp
        with r x have "x \<in> set (filter (ready g out) (nodes g))" by simp
        from leastByID_least [OF Some this] \<open>i = length out\<close> show ?thesis by simp
      qed
    qed
    from Suc.IH [OF this] Suc.prems(2-) Some show ?thesis by simp
  qed
qed

lemma kahn_length_or_stuck:
  "length (kahn ident g k out) = length out + k \<or>
   filter (ready g (kahn ident g k out)) (nodes g) = []"
proof (induction k arbitrary: out)
  case 0
  then show ?case by simp
next
  case (Suc k)
  show ?case
  proof (cases "leastByID ident (filter (ready g out) (nodes g))")
    case None
    then show ?thesis by (simp add: leastByID_None)
  next
    case (Some v)
    with Suc.IH [of "out @ [v]"] show ?thesis by simp
  qed
qed

lemma kahn_runs_to_completion:
  "filter (ready g (kahn ident g (length (nodes g)) [])) (nodes g) = []"
proof -
  let ?r = "kahn ident g (length (nodes g)) []"
  have "kahnInv g []" by (simp add: kahnInv_def)
  from kahn_invariant [OF this, of ident "length (nodes g)"]
  have d: "distinct ?r" and sub: "set ?r \<subseteq> set (nodes g)" by (simp_all add: kahnInv_def)
  from kahn_length_or_stuck [of ident g "length (nodes g)" "[]"]
  show ?thesis
  proof
    assume len: "length ?r = length [] + length (nodes g)"
    have "card (set ?r) \<le> card (set (nodes g))" using sub by (simp add: card_mono)
    moreover have "card (set ?r) = length (nodes g)" using d len by (simp add: distinct_card)
    moreover have "card (set (nodes g)) \<le> length (nodes g)" by (rule card_length)
    ultimately have "card (set ?r) = card (set (nodes g))" by simp
    with sub have "set ?r = set (nodes g)" by (simp add: card_subset_eq)
    then have "\<not> ready g ?r v" if "v \<in> set (nodes g)" for v
      using that by (simp add: ready_def)
    then show ?thesis by (simp add: filter_empty_conv)
  qed
qed

lemma SortStabilized_Inr:
  assumes "SortStabilized ids g = Inr ordered"
  shows "kahnInv g ordered \<and> length ordered = length (nodes g)"
proof -
  have "kahnInv g []" by (simp add: kahnInv_def)
  from kahn_invariant [OF this, of "\<lambda>r. ids ! r" "length (nodes g)"] assms
  show ?thesis by (auto simp: SortStabilized_def Let_def split: if_splits)
qed

lemma SortStabilized_all_nodes:
  assumes "SortStabilized ids g = Inr ordered" and "distinct (nodes g)"
  shows "set ordered = set (nodes g) \<and> distinct ordered"
proof -
  from SortStabilized_Inr [OF assms(1)]
  have inv: "distinct ordered" "set ordered \<subseteq> set (nodes g)" and len: "length ordered = length (nodes g)"
    by (auto simp: kahnInv_def)
  have "card (set ordered) = card (set (nodes g))"
    using inv(1) assms(2) len by (simp add: distinct_card)
  with inv(2) have "set ordered = set (nodes g)" by (simp add: card_subset_eq)
  with inv(1) show ?thesis by simp
qed

lemma SortStabilized_permutes:
  assumes "SortStabilized ids g = Inr ordered" and "distinct (nodes g)"
  shows "mset ordered = mset (nodes g)"
proof -
  from SortStabilized_all_nodes [OF assms]
  have "set ordered = set (nodes g)" "distinct ordered" by simp_all
  with assms(2) show ?thesis
    using set_eq_iff_mset_eq_distinct [of ordered "nodes g"] by simp
qed

lemma SortStabilized_returns_every_node:
  assumes "SortStabilized ids g = Inr ordered"
  shows "mset ordered = mset (nodes g)"
proof -
  from SortStabilized_Inr [OF assms]
  have d: "distinct ordered" and sub: "set ordered \<subseteq> set (nodes g)"
    and len: "length ordered = length (nodes g)"
    by (auto simp: kahnInv_def)
  have "card (set ordered) \<le> card (set (nodes g))" using sub by (simp add: card_mono)
  moreover have "card (set ordered) = length (nodes g)" using d len by (simp add: distinct_card)
  moreover have "card (set (nodes g)) \<le> length (nodes g)" by (rule card_length)
  ultimately have c: "card (set (nodes g)) = length (nodes g)" by simp
  then have dn: "distinct (nodes g)" by (rule card_distinct)
  from SortStabilized_permutes [OF assms dn] show ?thesis .
qed

lemma SortStabilized_least_ready:
  assumes "SortStabilized ids g = Inr ordered" and "j < length ordered"
    and "w \<in> set (nodes g)" and "ready g (take j ordered) w"
  shows "ids ! (ordered ! j) \<le> ids ! w"
proof -
  from assms(1) have o: "ordered = kahn (\<lambda>r. ids ! r) g (length (nodes g)) []"
    by (auto simp: SortStabilized_def Let_def split: if_splits)
  show ?thesis
    using kahn_least [of "[]" g "\<lambda>r. ids ! r" j "length (nodes g)" w] assms(2-) o by simp
qed

lemma copyContracts_fill:
  "i + length rest \<le> length out \<Longrightarrow>
     copyContracts cs out i rest
       = Inr (take i out @ map (\<lambda>r. Some (contract (cs ! r))) rest @ drop (i + length rest) out)"
proof (induction rest arbitrary: out i)
  case Nil
  then show ?case by simp
next
  case (Cons s rest)
  let ?out = "out[i := Some (contract (cs ! s))]"
  from Cons.prems have i: "i < length out" and "Suc i + length rest \<le> length ?out" by simp_all
  from Cons.IH [OF this(2)] i show ?case
    by (simp add: take_Suc_conv_app_nth)
qed

lemma copyContracts_all:
  "length ordered = length cs \<Longrightarrow>
     copyContracts cs (replicate (length cs) None) 0 ordered
       = Inr (map (\<lambda>r. Some (contract (cs ! r))) ordered)"
  using copyContracts_fill [of 0 ordered "replicate (length cs) None" cs] by simp

lemma Sort_Inr:
  assumes "Sort sorter d = (Inr out, d')"
  shows "buildDependencies d = (None, d') \<and>
         (\<exists>ordered. sortByDeploymentOrder sorter (contracts d') = Inr ordered \<and>
            copyContracts (contracts d') (replicate (length (contracts d')) None) 0 ordered = Inr out)"
proof -
  obtain e d1 where b: "buildDependencies d = (e, d1)" by (cases "buildDependencies d")
  with assms show ?thesis by (auto simp: Sort_def split: option.splits sum.splits)
qed

lemma sortByDeploymentOrder_Inr:
  "sortByDeploymentOrder sorter cs = Inr ordered \<Longrightarrow>
     sorter (map ID cs) (dependencyGraph cs) = Inr ordered"
  by (auto simp: sortByDeploymentOrder_def nodesToContracts_def split: sum.splits)

section \<open>Registries that differ in the enumeration order of their maps\<close>












section \<open>The examples, evaluated\<close>

lemmas registration_defs =
  NewDeployment_def add_def newContract_def memoryLoader_def parseLoaded_def registered_def
  contractA_def contractB_def contractC_def contractD_def

lemmas build_defs = Sort_def buildDependencies_def imports'_def addDependency_def registered_def

lemmas sort_defs =
  Sort_def buildDependencies_def imports'_def addDependency_def allocated_def
  sortByDeploymentOrder_def dependencyGraph_def AddNode_def SetEdge_def NewDirectedGraph_def
  rangeDependencies_def SortStabilized_def ready_def nodesToContracts_def ID_def upt_rec Let_def


lemma Sort_reversedAllocated:
  "Sort SortStabilized reversedAllocated = (Inr [Some contractA, Some contractB], reversedBuilt)"
  by (simp add: sort_defs reversedAllocated_def reversedBuilt_def numeral_2_eq_2)




text \<open>
  With the maps allocated and the sorter of the spec, the diamond comes out as A, B, C, D, a self
  import and a mutual import are reported as the cycles [A] and [A, B], and the missing import as
  the error naming B and the path.
\<close>

lemma Sort_diamondAllocated:
  "fst (Sort SortStabilized diamondAllocated)
     = Inr [Some contractA, Some contractB, Some contractC, Some contractD]"
  by code_simp

lemma Sort_selfAllocated:
  "fst (Sort SortStabilized selfAllocated) = Inl (CyclicImportError [[0]]) \<and>
   contractNames (contracts (snd (Sort SortStabilized selfAllocated))) [[0]] = [[''A'']]"
  by code_simp

lemma Sort_mutualAllocated:
  "fst (Sort SortStabilized mutualAllocated) = Inl (CyclicImportError [[0, 1]]) \<and>
   contractNames (contracts (snd (Sort SortStabilized mutualAllocated))) [[0, 1]]
     = [[''A'', ''B'']]"
  by code_simp

lemma Sort_missingAllocated:
  "fst (Sort SortStabilized missingAllocated) = Inl (ImportNotFound ''B'' ''x.cdc'')"
  by code_simp

section \<open>The claims\<close>





text \<open>
  C3. On the diamond as \<^verbatim>\<open>NewDeployment\<close> registers it, \<^verbatim>\<open>Sort\<close> does not return A, B, C, D: it
  panics on the first resolved import (B's import of A), because the dependency map of B is
  \<^verbatim>\<open>nil\<close>. This holds whatever the sorter is: \<^verbatim>\<open>Sort\<close> never reaches it.
\<close>

theorem Sort_diamond_nil_map_panic:
  "NewDeployment [contractA, contractB, contractC, contractD] (memoryLoader diamondFiles) parseLoaded
     = Inr diamondRegistry
   \<and> Sort sorter diamondRegistry = (Inl PanicNilMap, diamondRegistry)"
  by (simp add: registration_defs build_defs diamondFiles_def diamondRegistry_def
      numeral_2_eq_2 numeral_3_eq_3)

text \<open>
  C4. On a contract that imports its own location, registered by \<^verbatim>\<open>NewDeployment\<close>,
  \<^verbatim>\<open>Sort\<close> does not return a \<^verbatim>\<open>CyclicImportError\<close>: it panics when it records the import in the
  \<^verbatim>\<open>nil\<close> map.
\<close>

theorem Sort_self_import_nil_map_panic:
  "NewDeployment [contractA] (memoryLoader selfFiles) parseLoaded = Inr selfRegistry
   \<and> Sort sorter selfRegistry = (Inl PanicNilMap, selfRegistry)"
  by (simp add: registration_defs build_defs selfFiles_def selfRegistry_def)

text \<open>
  C5. On A and B registered by \<^verbatim>\<open>NewDeployment\<close>, where B imports A and then the unregistered
  location x.cdc, \<^verbatim>\<open>Sort\<close> does not return the error that names B and x.cdc: it panics on B's
  import of A, which it scans first, before it reaches the unresolved import.
\<close>

theorem Sort_missing_import_nil_map_panic:
  "NewDeployment [contractA, contractB] (memoryLoader missingFiles) parseLoaded = Inr missingRegistry
   \<and> contractsByLocation missingRegistry ''x.cdc'' = None
   \<and> Sort sorter missingRegistry = (Inl PanicNilMap, missingRegistry)"
  by (simp add: registration_defs build_defs missingFiles_def missingRegistry_def)

text \<open>
  C6. On A and B registered by \<^verbatim>\<open>NewDeployment\<close>, where each imports the other, \<^verbatim>\<open>Sort\<close> does
  not return a \<^verbatim>\<open>CyclicImportError\<close>: it panics on A's import of B, before any graph is built.
\<close>

theorem Sort_mutual_import_nil_map_panic:
  "NewDeployment [contractA, contractB] (memoryLoader mutualFiles) parseLoaded = Inr mutualRegistry
   \<and> Sort sorter mutualRegistry = (Inl PanicNilMap, mutualRegistry)"
  by (simp add: registration_defs build_defs mutualFiles_def mutualRegistry_def)

text \<open>
  C7. Whenever \<^verbatim>\<open>Sort\<close> returns without error, what it returns is a permutation of the registered
  contracts: the same \<^verbatim>\<open>Contract\<close> values, each as often as it is registered, none \<^verbatim>\<open>nil\<close>, and
  as many as there are. The sorter is any function that, when it succeeds, returns every node of
  the graph once.
\<close>

theorem Sort_permutation:
  assumes "\<forall>ids g ordered. sorter ids g = Inr ordered \<longrightarrow> mset ordered = mset (nodes g)"
    and "Sort sorter d = (Inr out, d')"
  shows "mset out = mset (map (\<lambda>c. Some (contract c)) (contracts d)) \<and>
         length out = length (contracts d)"
proof -
  let ?cs = "contracts d'"
  let ?f = "\<lambda>r. Some (contract (?cs ! r))"
  from Sort_Inr [OF assms(2)] obtain ordered where
    b: "buildDependencies d = (None, d')" and
    s: "sortByDeploymentOrder sorter ?cs = Inr ordered" and
    cp: "copyContracts ?cs (replicate (length ?cs) None) 0 ordered = Inr out"
    by auto
  from sortByDeploymentOrder_Inr [OF s] assms(1)
  have ms: "mset ordered = mset [0..<length ?cs]" by (simp add: nodes_dependencyGraph)
  then have len: "length ordered = length ?cs" by (metis size_mset length_upt diff_zero)
  from copyContracts_all [OF len] cp have out: "out = map ?f ordered" by simp
  have "mset out = image_mset ?f (mset ordered)" by (simp add: out)
  also have "\<dots> = mset (map ?f [0..<length ?cs])" by (simp add: ms)
  also have "map ?f [0..<length ?cs] = map (\<lambda>c. Some (contract c)) ?cs"
    by (rule nth_equalityI) simp_all
  finally have perm: "mset out = mset (map (\<lambda>c. Some (contract c)) ?cs)" .
  obtain e cs1 where l: "buildLoop (contractsByLocation d) (contracts d) = (e, cs1)"
    by (cases "buildLoop (contractsByLocation d) (contracts d)")
  with b have "?cs = cs1" by (auto simp: buildDependencies_def)
  with buildLoop_frame [OF l] have same: "map contract ?cs = map contract (contracts d)" by simp
  have "map (\<lambda>c. Some (contract c)) ?cs = map Some (map contract ?cs)" by simp
  also have "\<dots> = map (\<lambda>c. Some (contract c)) (contracts d)" by (simp add: same)
  finally have "map (\<lambda>c. Some (contract c)) ?cs = map (\<lambda>c. Some (contract c)) (contracts d)" .
  with perm out len same show ?thesis by (metis length_map)
qed

theorem Sort_permutation_witness:
  "Sort SortStabilized reversedAllocated = (Inr [Some contractA, Some contractB], reversedBuilt) \<and>
   map (\<lambda>c. Some (contract c)) (contracts reversedAllocated) = [Some contractB, Some contractA] \<and>
   mset [Some contractA, Some contractB]
     = mset (map (\<lambda>c. Some (contract c)) (contracts reversedAllocated)) \<and>
   length [Some contractA, Some contractB] = length (contracts reversedAllocated)"
proof -
  have "\<forall>ids g ordered. SortStabilized ids g = Inr ordered \<longrightarrow> mset ordered = mset (nodes g)"
    using SortStabilized_returns_every_node by blast
  from Sort_permutation [OF this Sort_reversedAllocated] Sort_reversedAllocated
  show ?thesis by (simp add: reversedAllocated_def allocated_def)
qed







text \<open>
  C10. \<^verbatim>\<open>newContract\<close> leaves the dependency map \<^verbatim>\<open>nil\<close>, so on the chain as \<^verbatim>\<open>NewDeployment\<close>
  registers it \<^verbatim>\<open>Sort\<close> panics when \<^verbatim>\<open>addDependency\<close> writes B's import of A.
\<close>

theorem Sort_chain_nil_map_panic:
  "NewDeployment [contractA, contractB] (memoryLoader chainFiles) parseLoaded = Inr chainRegistry
   \<and> Sort sorter chainRegistry = (Inl PanicNilMap, chainRegistry)"
  by (simp add: registration_defs build_defs chainFiles_def chainRegistry_def)

section \<open>Further properties of the registration\<close>

text \<open>
  \<^verbatim>\<open>NewDeployment\<close> registers the contracts in the order it is given them, numbers them
  0, 1, 2, ... and leaves every dependency map \<^verbatim>\<open>nil\<close>.
\<close>

theorem NewDeployment_registration_order:
  assumes "NewDeployment cs Load ParseProgram = Inr d"
  shows "map contract (contracts d) = cs \<and>
         map index (contracts d) = map int [0..<length cs] \<and>
         (\<forall>c \<in> set (contracts d). dependencies c = None)"
proof -
  from assms
  have a: "addAll Load ParseProgram \<lparr>contracts = [], contractsByLocation = Map.empty\<rparr> cs = Inr d"
    by (simp add: NewDeployment_def)
  from addAll_registers [OF a] NewDeployment_dependencies_nil [OF assms] show ?thesis by simp
qed

theorem NewDeployment_registration_order_witness:
  "NewDeployment [contractA, contractB] (memoryLoader chainFiles) parseLoaded = Inr chainRegistry \<and>
   map contract (contracts chainRegistry) = [contractA, contractB] \<and>
   map index (contracts chainRegistry) = [0, 1] \<and>
   map dependencies (contracts chainRegistry) = [None, None]"
proof -
  have n: "NewDeployment [contractA, contractB] (memoryLoader chainFiles) parseLoaded
             = Inr chainRegistry"
    by (simp add: registration_defs chainFiles_def chainRegistry_def)
  from NewDeployment_registration_order [OF n] n show ?thesis
    by (simp add: chainRegistry_def registered_def upt_rec numeral_2_eq_2)
qed

text \<open>
  On a registry built by \<^verbatim>\<open>NewDeployment\<close>, \<^verbatim>\<open>Sort\<close> leaves the registry as it is, and unless
  no contract has any import it ends in the panic of the \<^verbatim>\<open>nil\<close> map or in the error of an
  import that is not registered.
\<close>

theorem Sort_registered_outcome:
  assumes "NewDeployment cs Load ParseProgram = Inr d" and "Sort sorter d = (r, d')"
  shows "d' = d \<and>
         (r = Inl PanicNilMap \<or> (\<exists>n p. r = Inl (ImportNotFound n p)) \<or>
          list_all (\<lambda>c. imports' c = []) (contracts d))"
proof -
  obtain e cs1 where l: "buildLoop (contractsByLocation d) (contracts d) = (e, cs1)"
    by (cases "buildLoop (contractsByLocation d) (contracts d)")
  from buildLoop_nil_maps [OF NewDeployment_dependencies_nil [OF assms(1)] l]
  have same: "cs1 = contracts d" and
    out: "case e of None \<Rightarrow> \<forall>c \<in> set (contracts d). imports' c = []
          | Some err \<Rightarrow> err = PanicNilMap \<or> (\<exists>n p. err = ImportNotFound n p)"
    by simp_all
  from l same have b: "buildDependencies d = (e, d)" by (simp add: buildDependencies_def)
  show ?thesis
  proof (cases e)
    case None
    with out have "list_all (\<lambda>c. imports' c = []) (contracts d)" by (simp add: list_all_iff)
    moreover from assms(2) b have "d' = d"
      by (auto simp: Sort_def split: option.splits sum.splits)
    ultimately show ?thesis by simp
  next
    case (Some err)
    with assms(2) b have "d' = d" "r = Inl err" by (auto simp: Sort_def)
    with out Some show ?thesis by auto
  qed
qed

theorem Sort_registered_outcome_witness:
  "NewDeployment [contractA, contractB] (memoryLoader missingFiles) parseLoaded
     = Inr missingRegistry \<and>
   Sort SortStabilized missingRegistry = (Inl PanicNilMap, missingRegistry) \<and>
   \<not> list_all (\<lambda>c. imports' c = []) (contracts missingRegistry)"
proof -
  have n: "NewDeployment [contractA, contractB] (memoryLoader missingFiles) parseLoaded
             = Inr missingRegistry"
    by (simp add: registration_defs missingFiles_def missingRegistry_def)
  have s: "Sort SortStabilized missingRegistry = (Inl PanicNilMap, missingRegistry)"
    by (simp add: build_defs missingRegistry_def)
  from Sort_registered_outcome [OF n s] n s show ?thesis
    by (simp add: missingRegistry_def registered_def imports'_def)
qed

end
